theory Spec2Isabelle
  imports Main
begin

section \<open>SafetyClient (src/iarc7_safety/SafetyClient.cpp)\<close>

text \<open>
  The members of class \<open>SafetyClient\<close> that the methods read and write. The C++ members
  end in an underscore (\<open>bond_id_\<close>, \<open>safety_active_\<close>, ...); the field names drop
  it. The \<open>bond::Bond\<close> member is the external heartbeat library: of it the model keeps
  only the two callbacks it was given, \<open>onBroken\<close> and \<open>onFormed\<close>, which it invokes.
\<close>

record SafetyClient =
  bond_id :: string
  fatal_message :: string
  safety_active :: bool
  fatal_active :: bool
  broken :: bool
  formed :: bool

text \<open>
  Modelled from the spec: the header SafetyClient.hpp holds the default member
  initialisers and is not part of the sources. The spec names the sentinel as the
  literal \<open>FATAL\<close> and describes the four flags as set only by events, so a new client
  has all four flags false. The constructor itself only stores \<open>bond_id\<close>, hands the two
  callbacks to the bond and subscribes \<open>processSafetyMessage\<close> to the topic.
\<close>

definition SafetyClient_new :: "string \<Rightarrow> SafetyClient" where
  "SafetyClient_new bid =
     \<lparr>bond_id = bid, fatal_message = ''FATAL'', safety_active = False,
      fatal_active = False, broken = False, formed = False\<rparr>"

text \<open>
  Modelled from the spec: \<open>getId\<close> is declared in the missing header; it hands back the id
  of the bond, which the constructor created with \<open>bond_id_\<close>.
\<close>

definition getId :: "SafetyClient \<Rightarrow> string" where
  "getId c = bond_id c"

text \<open>Lines 54-65: the own id is tested first, the sentinel only in the else branch.\<close>

definition processSafetyMessage :: "string \<Rightarrow> SafetyClient \<Rightarrow> SafetyClient" where
  "processSafetyMessage message c =
     (if message = bond_id c then c\<lparr>safety_active := True\<rparr>
      else if message = fatal_message c then c\<lparr>safety_active := True, fatal_active := True\<rparr>
      else c)"

definition isSafetyActive :: "SafetyClient \<Rightarrow> bool" where
  "isSafetyActive c = safety_active c"

definition isFatalActive :: "SafetyClient \<Rightarrow> bool" where
  "isFatalActive c = fatal_active c"

definition onBroken :: "SafetyClient \<Rightarrow> SafetyClient" where
  "onBroken c = c\<lparr>broken := True, formed := False, fatal_active := True, safety_active := True\<rparr>"

definition onFormed :: "SafetyClient \<Rightarrow> SafetyClient" where
  "onFormed c = c\<lparr>broken := False, formed := True\<rparr>"

text \<open>
  Everything that can happen to one client after its construction is one of its three
  callbacks. A history of a client is a list of them, oldest first.
\<close>

datatype callback = ProcessSafetyMessage string | OnBroken | OnFormed

fun invoke :: "callback \<Rightarrow> SafetyClient \<Rightarrow> SafetyClient" where
  "invoke (ProcessSafetyMessage m) c = processSafetyMessage m c"
| "invoke OnBroken c = onBroken c"
| "invoke OnFormed c = onFormed c"

fun run_callbacks :: "callback list \<Rightarrow> SafetyClient \<Rightarrow> SafetyClient" where
  "run_callbacks [] c = c"
| "run_callbacks (cb # cbs) c = run_callbacks cbs (invoke cb c)"

subsection \<open>The cooperative scheduling point\<close>

text \<open>
  The monitor holds one client per bond in a vector; the model keeps them in a list,
  index = priority. \<open>ros::spinOnce()\<close> runs the callbacks that are pending. An event is
  a message on the shared topic, which every constructed client receives (each one
  subscribed in its constructor), or a bond callback of the client at one index.
\<close>

datatype event = Message string | BondBroken nat | BondFormed nat

fun deliver :: "event \<Rightarrow> SafetyClient list \<Rightarrow> SafetyClient list" where
  "deliver (Message m) cs = map (processSafetyMessage m) cs"
| "deliver (BondBroken i) cs = (if i < length cs then cs[i := onBroken (cs ! i)] else cs)"
| "deliver (BondFormed i) cs = (if i < length cs then cs[i := onFormed (cs ! i)] else cs)"

fun spinOnce :: "event list \<Rightarrow> SafetyClient list \<Rightarrow> SafetyClient list" where
  "spinOnce [] cs = cs"
| "spinOnce (e # es) cs = spinOnce es (deliver e cs)"

text \<open>
  The environment of a polling loop, one tick per iteration: what \<open>ros::ok()\<close> answers
  at the iteration's test, and the events that the iteration's \<open>spinOnce\<close> delivers if
  the iteration gets that far.
\<close>

type_synonym tick = "bool \<times> event list"

text \<open>
  Lines 34-52. The loop has three ways out: the two \<open>return\<close> statements, and the loop
  test, after which control reaches the closing brace of a \<open>bool\<close> function with no
  \<open>return\<close> (\<open>NoReturn\<close>: the value the caller reads is undefined). \<open>Pending\<close> is
  the loop still turning when the observed ticks are used up. The client is the one at
  index \<open>k\<close>; the other clients are there because \<open>spinOnce\<close> serves them too.
\<close>

datatype wait_result = Returned bool | NoReturn | Pending

fun waitUntilSafe ::
  "tick list \<Rightarrow> SafetyClient list \<Rightarrow> nat \<Rightarrow> wait_result \<times> SafetyClient list \<times> tick list" where
  "waitUntilSafe [] cs k = (Pending, cs, [])"
| "waitUntilSafe ((ok, evs) # ticks) cs k =
     (if \<not> ok then (NoReturn, cs, ticks)
      else if broken (cs ! k) then (Returned False, cs, ticks)
      else if formed (cs ! k) then (Returned True, cs, ticks)
      else waitUntilSafe ticks (spinOnce evs cs) k)"

text \<open>Lines 23-31: \<open>bond_.start()\<close> changes no member of the client.\<close>

definition formBond ::
  "tick list \<Rightarrow> SafetyClient list \<Rightarrow> nat \<Rightarrow> wait_result \<times> SafetyClient list \<times> tick list" where
  "formBond ticks cs k = waitUntilSafe ticks cs k"

section \<open>The monitor (src/SafetyMonitor.cpp)\<close>

text \<open>
  \<open>static_cast<int32_t>\<close> of a \<open>size_t\<close>: the value modulo \<open>2 ^ 32\<close>, read as two's
  complement. All other arithmetic of \<open>main\<close> on \<open>int32_t\<close> stays in range when the
  cast does (\<open>i\<close> runs from 0 below the cast size, \<open>i - 1\<close> is at least \<open>-1\<close>), so it
  is arithmetic on \<open>int\<close>.
\<close>

definition static_cast_int32 :: "nat \<Rightarrow> int" where
  "static_cast_int32 n = (int n + 2 ^ 31) mod 2 ^ 32 - 2 ^ 31"

text \<open>
  The ways startup or a cycle stop the process: the two assertions on the parameter
  (lines 57-58), the range assertion of the loop (line 115), and a \<open>formBond\<close> that hands
  back no value or has not come back yet.
\<close>

datatype halt = ParamMissing | ParamEmpty | PriorityOutOfRange | FormBondNoReturn | FormBondPending

text \<open>
  Lines 65-89. The client under construction is kept at the end of the list while its
  \<open>formBond\<close> runs (it is already subscribed then); the source pushes it onto the vector
  right after, on both branches. A failure sets the priority to \<open>-1\<close> and leaves the loop.
\<close>

fun init_bonds ::
  "string list \<Rightarrow> tick list \<Rightarrow> SafetyClient list \<Rightarrow> int \<Rightarrow>
     halt + (SafetyClient list \<times> int \<times> tick list)" where
  "init_bonds [] ticks bonds lsp = Inr (bonds, lsp, ticks)"
| "init_bonds (bid # bids) ticks bonds lsp =
     (case formBond ticks (bonds @ [SafetyClient_new bid]) (length bonds) of
        (Returned True, bonds', ticks') \<Rightarrow> init_bonds bids ticks' bonds' lsp
      | (Returned False, bonds', ticks') \<Rightarrow> Inr (bonds', - 1, ticks')
      | (NoReturn, _, _) \<Rightarrow> Inl FormBondNoReturn
      | (Pending, _, _) \<Rightarrow> Inl FormBondPending)"

text \<open>
  Lines 55-89: the parameter (\<open>None\<close> when \<open>getParam\<close> fails), the two assertions, the
  seed \<open>size - 1\<close> and the loop above.
\<close>

definition main_startup ::
  "string list option \<Rightarrow> tick list \<Rightarrow> halt + (SafetyClient list \<times> int \<times> tick list)" where
  "main_startup param ticks =
     (case param of
        None \<Rightarrow> Inl ParamMissing
      | Some bond_ids \<Rightarrow>
          if \<not> length bond_ids > 0 then Inl ParamEmpty
          else init_bonds bond_ids ticks [] (static_cast_int32 (length bond_ids) - 1))"

text \<open>Lines 95-112: the pass over the clients, \<open>i\<close> counting up from its start value.\<close>

function eval_loop :: "SafetyClient list \<Rightarrow> int \<Rightarrow> int \<Rightarrow> int" where
  "eval_loop bonds i lsp =
     (if i < static_cast_int32 (length bonds) then
        let lsp1 = (if isSafetyActive (bonds ! nat i) then min i lsp else lsp);
            lsp2 = (if isFatalActive (bonds ! nat i) then min (i - 1) lsp1 else lsp1)
        in eval_loop bonds (i + 1) lsp2
      else lsp)"
  by pat_completeness auto
termination
  by (relation "measure (\<lambda>(bonds, i, lsp). nat (static_cast_int32 (length bonds) - i))") auto

declare eval_loop.simps [simp del]

definition range_assert :: "SafetyClient list \<Rightarrow> int \<Rightarrow> bool" where
  "range_assert bonds lsp \<longleftrightarrow> lsp > - 2 \<and> lsp < static_cast_int32 (length bonds)"

text \<open>Lines 118-140: what the cycle publishes, if anything.\<close>

definition publish_decision :: "SafetyClient list \<Rightarrow> int \<Rightarrow> string option" where
  "publish_decision bonds lsp =
     (if lsp > - 1 \<and> lsp < static_cast_int32 (length bonds) - 1
      then Some (getId (bonds ! nat lsp))
      else if lsp < 0 then Some ''FATAL''
      else None)"

text \<open>
  Lines 95-140, one cycle up to the publication: the new value of
  \<open>lowest_safe_priority\<close> and the message published, or the failed assertion.
\<close>

definition loop_cycle :: "SafetyClient list \<Rightarrow> int \<Rightarrow> halt + (int \<times> string option)" where
  "loop_cycle bonds lsp =
     (let l = eval_loop bonds 0 lsp
      in if \<not> range_assert bonds l then Inl PriorityOutOfRange
         else Inr (l, publish_decision bonds l))"

text \<open>
  Lines 92-153. The result is the log of the cycles that ran, each with the value of
  \<open>lowest_safe_priority\<close> after its pass and its publication, and how the loop stood at
  the end: left by \<open>break\<close>, aborted by the assertion, or still running when the observed
  ticks are used up.
\<close>

datatype loop_end = Exited | Aborted | Running

fun main_loop ::
  "tick list \<Rightarrow> SafetyClient list \<Rightarrow> int \<Rightarrow> (int \<times> string option) list \<times> loop_end" where
  "main_loop [] bonds lsp = ([], Running)"
| "main_loop ((ok, evs) # ticks) bonds lsp =
     (case loop_cycle bonds lsp of
        Inl h \<Rightarrow> ([], Aborted)
      | Inr (l, p) \<Rightarrow>
          if \<not> ok then ([(l, p)], Exited)
          else (case main_loop ticks (spinOnce evs bonds) l of
                  (log, e) \<Rightarrow> ((l, p) # log, e)))"

definition main ::
  "string list option \<Rightarrow> tick list \<Rightarrow> halt + ((int \<times> string option) list \<times> loop_end)" where
  "main param ticks =
     (case main_startup param ticks of
        Inl h \<Rightarrow> Inl h
      | Inr (bonds, lsp, ticks') \<Rightarrow> Inr (main_loop ticks' bonds lsp))"

section \<open>Two concrete runs\<close>

text \<open>
  Three nodes whose bonds all form: each \<open>formBond\<close> sees its \<open>onFormed\<close> at the
  first \<open>spinOnce\<close> and returns at the next test.
\<close>

definition all_form_ticks :: "tick list" where
  "all_form_ticks =
     [(True, [BondFormed 0]), (True, []), (True, [BondFormed 1]), (True, []),
      (True, [BondFormed 2]), (True, [])]"

definition fleet_ABC :: "SafetyClient list" where
  "fleet_ABC = [onFormed (SafetyClient_new ''A''), onFormed (SafetyClient_new ''B''),
                onFormed (SafetyClient_new ''C'')]"

text \<open>Two nodes, the first forms and the bond of the second breaks while it is forming.\<close>

definition A_forms_B_breaks :: "tick list" where
  "A_forms_B_breaks = [(True, [BondFormed 0]), (True, []), (True, [BondBroken 1]), (True, [])]"

definition fleet_A_brokenB :: "SafetyClient list" where
  "fleet_A_brokenB = [onFormed (SafetyClient_new ''A''), onBroken (SafetyClient_new ''B'')]"

section \<open>Properties of the client callbacks\<close>

lemma invoke_keeps_flags:
  "safety_active c \<Longrightarrow> safety_active (invoke cb c)"
  "fatal_active c \<Longrightarrow> fatal_active (invoke cb c)"
  by (cases cb; simp add: processSafetyMessage_def onBroken_def onFormed_def)+

lemma run_callbacks_keeps_flags:
  "safety_active c \<Longrightarrow> safety_active (run_callbacks cbs c)"
  "fatal_active c \<Longrightarrow> fatal_active (run_callbacks cbs c)"
  by (induction cbs arbitrary: c; simp add: invoke_keeps_flags)+

lemma invoke_fatal_implies_safety:
  "(fatal_active c \<longrightarrow> safety_active c) \<Longrightarrow>
   fatal_active (invoke cb c) \<longrightarrow> safety_active (invoke cb c)"
  by (cases cb) (auto simp: processSafetyMessage_def onBroken_def onFormed_def)

lemma run_callbacks_fatal_implies_safety:
  "(fatal_active c \<longrightarrow> safety_active c) \<Longrightarrow>
   fatal_active (run_callbacks cbs c) \<longrightarrow> safety_active (run_callbacks cbs c)"
proof (induction cbs arbitrary: c)
  case Nil
  then show ?case by simp
next
  case (Cons cb cbs)
  from Cons.prems have "fatal_active (invoke cb c) \<longrightarrow> safety_active (invoke cb c)"
    by (rule invoke_fatal_implies_safety)
  then show ?case using Cons.IH by simp
qed

lemma invoke_keeps_broken:
  "cb \<noteq> OnFormed \<Longrightarrow> broken c \<and> \<not> formed c \<Longrightarrow> broken (invoke cb c) \<and> \<not> formed (invoke cb c)"
  by (cases cb) (auto simp: processSafetyMessage_def onBroken_def)

lemma run_callbacks_keeps_broken:
  "OnFormed \<notin> set cbs \<Longrightarrow> broken c \<and> \<not> formed c \<Longrightarrow>
   broken (run_callbacks cbs c) \<and> \<not> formed (run_callbacks cbs c)"
proof (induction cbs arbitrary: c)
  case Nil
  then show ?case by simp
next
  case (Cons cb cbs)
  then have "cb \<noteq> OnFormed" and rest: "OnFormed \<notin> set cbs" by auto
  with Cons.prems have "broken (invoke cb c) \<and> \<not> formed (invoke cb c)"
    using invoke_keeps_broken by blast
  with rest show ?case using Cons.IH by simp
qed

section \<open>Properties of startup and of the evaluation pass\<close>

lemma static_cast_int32_id: "n < 2 ^ 31 \<Longrightarrow> static_cast_int32 n = int n"
proof -
  assume "n < 2 ^ 31"
  then have "int n < 2 ^ 31" by simp
  then show ?thesis by (simp add: static_cast_int32_def)
qed

lemma eval_loop_le: "eval_loop bonds i lsp \<le> lsp"
proof (induction bonds i lsp rule: eval_loop.induct)
  case (1 bonds i lsp)
  show ?case
  proof (cases "i < static_cast_int32 (length bonds)")
    case True
    let ?l1 = "if isSafetyActive (bonds ! nat i) then min i lsp else lsp"
    let ?l2 = "if isFatalActive (bonds ! nat i) then min (i - 1) ?l1 else ?l1"
    have "eval_loop bonds (i + 1) ?l2 \<le> ?l2"
      using "1.IH" [OF True refl refl] .
    moreover have "?l2 \<le> lsp" by (simp add: min_def)
    moreover have "eval_loop bonds i lsp = eval_loop bonds (i + 1) ?l2"
      using True by (subst eval_loop.simps) (simp add: Let_def)
    ultimately show ?thesis by linarith
  next
    case False
    then show ?thesis by (subst eval_loop.simps) simp
  qed
qed

lemma eval_loop_ge: "0 \<le> i \<Longrightarrow> - 1 \<le> lsp \<Longrightarrow> - 1 \<le> eval_loop bonds i lsp"
proof (induction bonds i lsp rule: eval_loop.induct)
  case (1 bonds i lsp)
  show ?case
  proof (cases "i < static_cast_int32 (length bonds)")
    case True
    let ?l1 = "if isSafetyActive (bonds ! nat i) then min i lsp else lsp"
    let ?l2 = "if isFatalActive (bonds ! nat i) then min (i - 1) ?l1 else ?l1"
    have "- 1 \<le> ?l2" using "1.prems" by simp
    moreover have "0 \<le> i + 1" using "1.prems" by simp
    ultimately have "- 1 \<le> eval_loop bonds (i + 1) ?l2"
      using "1.IH" [OF True refl refl] by blast
    moreover have "eval_loop bonds i lsp = eval_loop bonds (i + 1) ?l2"
      using True by (subst eval_loop.simps) (simp add: Let_def)
    ultimately show ?thesis by linarith
  next
    case False
    then show ?thesis using "1.prems" by (subst eval_loop.simps) simp
  qed
qed

lemma length_deliver [simp]: "length (deliver e cs) = length cs"
  by (cases e) simp_all

lemma length_spinOnce [simp]: "length (spinOnce evs cs) = length cs"
  by (induction evs arbitrary: cs) simp_all

lemma bond_id_invoke [simp]:
  "bond_id (processSafetyMessage m c) = bond_id c"
  "bond_id (onBroken c) = bond_id c"
  "bond_id (onFormed c) = bond_id c"
  by (simp_all add: processSafetyMessage_def onBroken_def onFormed_def)

lemma bond_ids_deliver [simp]: "map bond_id (deliver e cs) = map bond_id cs"
  by (cases e) (simp_all add: map_update comp_def list_update_same_conv)

lemma bond_ids_spinOnce [simp]: "map bond_id (spinOnce evs cs) = map bond_id cs"
  by (induction evs arbitrary: cs) simp_all

lemma waitUntilSafe_keeps:
  "waitUntilSafe ticks cs k = (r, cs', ticks') \<Longrightarrow>
   length cs' = length cs \<and> map bond_id cs' = map bond_id cs"
proof (induction ticks arbitrary: cs)
  case Nil
  then show ?case by simp
next
  case (Cons t ticks)
  obtain ok evs where t: "t = (ok, evs)" by (cases t)
  show ?case
  proof (cases "ok \<and> \<not> broken (cs ! k) \<and> \<not> formed (cs ! k)")
    case True
    with Cons.prems t have "waitUntilSafe ticks (spinOnce evs cs) k = (r, cs', ticks')"
      by simp
    from Cons.IH [OF this] show ?thesis by simp
  next
    case False
    with Cons.prems t show ?thesis by (auto split: if_splits)
  qed
qed

lemma init_bonds_result:
  "init_bonds bids ticks bonds lsp = Inr (bonds', lsp', ticks') \<Longrightarrow>
   (\<exists>n. n \<le> length bids \<and> length bonds' = length bonds + n \<and>
        map bond_id bonds' = map bond_id bonds @ take n bids \<and>
        (lsp' = lsp \<and> n = length bids \<or> lsp' = - 1 \<and> 1 \<le> n))"
proof (induction bids arbitrary: ticks bonds)
  case Nil
  then show ?case by simp
next
  case (Cons bid bids)
  obtain r cs1 ticks1 where
    fb: "formBond ticks (bonds @ [SafetyClient_new bid]) (length bonds) = (r, cs1, ticks1)"
    by (cases "formBond ticks (bonds @ [SafetyClient_new bid]) (length bonds)")
  then have keep: "length cs1 = length bonds + 1"
    "map bond_id cs1 = map bond_id bonds @ [bid]"
    using waitUntilSafe_keeps [of ticks "bonds @ [SafetyClient_new bid]" "length bonds" r cs1 ticks1]
    by (simp_all add: formBond_def SafetyClient_new_def)
  show ?case
  proof (cases r)
    case (Returned b)
    show ?thesis
    proof (cases b)
      case True
      with Returned fb Cons.prems
      have "init_bonds bids ticks1 cs1 lsp = Inr (bonds', lsp', ticks')" by simp
      from Cons.IH [OF this] obtain n where n: "n \<le> length bids"
        "length bonds' = length cs1 + n"
        "map bond_id bonds' = map bond_id cs1 @ take n bids"
        "lsp' = lsp \<and> n = length bids \<or> lsp' = - 1 \<and> 1 \<le> n" by blast
      show ?thesis
        by (rule exI [of _ "Suc n"]) (use n keep in auto)
    next
      case False
      with Returned fb Cons.prems have "bonds' = cs1" "lsp' = - 1" by simp_all
      then show ?thesis
        by (intro exI [of _ 1]) (use keep in simp)
    qed
  next
    case NoReturn
    with fb Cons.prems show ?thesis by simp
  next
    case Pending
    with fb Cons.prems show ?thesis by simp
  qed
qed

lemma main_startup_result:
  assumes "main_startup (Some ids) ticks = Inr (bonds0, lsp0, ticks')"
    and "length ids < 2 ^ 31"
  shows "1 \<le> length bonds0 \<and> length bonds0 \<le> length ids \<and>
         map bond_id bonds0 = take (length bonds0) ids \<and>
         (lsp0 = int (length ids) - 1 \<and> length bonds0 = length ids \<or> lsp0 = - 1)"
proof -
  from assms(1) have ne: "0 < length ids"
    by (simp add: main_startup_def split: if_splits)
  with assms(1)
  have ib: "init_bonds ids ticks [] (static_cast_int32 (length ids) - 1) = Inr (bonds0, lsp0, ticks')"
    by (simp add: main_startup_def)
  from init_bonds_result [OF ib] obtain n where n: "n \<le> length ids"
    "length bonds0 = n" "map bond_id bonds0 = take n ids"
    "lsp0 = static_cast_int32 (length ids) - 1 \<and> n = length ids \<or> lsp0 = - 1 \<and> 1 \<le> n"
    by auto
  have cast: "static_cast_int32 (length ids) = int (length ids)"
    using assms(2) by (rule static_cast_int32_id)
  have "1 \<le> n" using n(4) ne by (cases ids) auto
  moreover have "lsp0 = int (length ids) - 1 \<and> n = length ids \<or> lsp0 = - 1"
    using n(4) cast by auto
  ultimately show ?thesis using n(1,2,3) by simp
qed

lemma loop_cycle_Inr:
  "loop_cycle bonds lsp = Inr (l, p) \<Longrightarrow>
   l = eval_loop bonds 0 lsp \<and> range_assert bonds l \<and> p = publish_decision bonds l"
  by (auto simp: loop_cycle_def Let_def split: if_splits)

lemma loop_cycle_in_range:
  assumes "length bonds < 2 ^ 31" and "- 1 \<le> lsp" and "lsp < int (length bonds)"
  shows "\<exists>l. loop_cycle bonds lsp = Inr (l, publish_decision bonds l) \<and> - 1 \<le> l \<and> l \<le> lsp"
proof -
  let ?l = "eval_loop bonds 0 lsp"
  have lo: "- 1 \<le> ?l" using assms(2) by (simp add: eval_loop_ge)
  have hi: "?l \<le> lsp" by (rule eval_loop_le)
  have "range_assert bonds ?l"
    using lo hi assms(1,3) by (simp add: range_assert_def static_cast_int32_id)
  then have "loop_cycle bonds lsp = Inr (?l, publish_decision bonds ?l)"
    by (simp add: loop_cycle_def Let_def)
  with lo hi show ?thesis by blast
qed

lemma main_loop_nonincreasing:
  "sorted_wrt (\<ge>) (lsp # map fst (fst (main_loop ticks bonds lsp)))"
proof (induction ticks arbitrary: bonds lsp)
  case Nil
  then show ?case by simp
next
  case (Cons t ticks)
  obtain ok evs where t: "t = (ok, evs)" by (cases t)
  show ?case
  proof (cases "loop_cycle bonds lsp")
    case (Inl h)
    with t show ?thesis by simp
  next
    case (Inr lp)
    obtain l p where lp: "lp = (l, p)" by (cases lp)
    from Inr lp have le: "l \<le> lsp"
      using loop_cycle_Inr [of bonds lsp l p] eval_loop_le [of bonds 0 lsp] by simp
    show ?thesis
    proof (cases ok)
      case False
      with Inr lp t le show ?thesis by simp
    next
      case True
      obtain log e where ml: "main_loop ticks (spinOnce evs bonds) l = (log, e)"
        by (cases "main_loop ticks (spinOnce evs bonds) l")
      from Cons.IH [of l "spinOnce evs bonds"] ml
      have "sorted_wrt (\<ge>) (l # map fst log)" by simp
      with le have "sorted_wrt (\<ge>) (lsp # l # map fst log)" by auto
      with True Inr lp t ml show ?thesis by simp
    qed
  qed
qed

lemma main_loop_in_range:
  assumes "length bonds < 2 ^ 31" and "- 1 \<le> lsp" and "lsp < int (length bonds)"
  shows "snd (main_loop ticks bonds lsp) \<noteq> Aborted \<and>
         (\<forall>(l, p) \<in> set (fst (main_loop ticks bonds lsp)). - 1 \<le> l \<and> l < int (length bonds))"
  using assms
proof (induction ticks arbitrary: bonds lsp)
  case Nil
  then show ?case by simp
next
  case (Cons t ticks)
  obtain ok evs where t: "t = (ok, evs)" by (cases t)
  from loop_cycle_in_range [OF Cons.prems] obtain l where
    l: "loop_cycle bonds lsp = Inr (l, publish_decision bonds l)" "- 1 \<le> l" "l \<le> lsp"
    by blast
  then have lN: "l < int (length bonds)" using Cons.prems(3) by simp
  show ?case
  proof (cases ok)
    case False
    with t l lN show ?thesis by simp
  next
    case True
    obtain log e where ml: "main_loop ticks (spinOnce evs bonds) l = (log, e)"
      by (cases "main_loop ticks (spinOnce evs bonds) l")
    have "snd (main_loop ticks (spinOnce evs bonds) l) \<noteq> Aborted \<and>
         (\<forall>(l, p) \<in> set (fst (main_loop ticks (spinOnce evs bonds) l)).
             - 1 \<le> l \<and> l < int (length (spinOnce evs bonds)))"
      using Cons.prems(1) l(2) lN by (intro Cons.IH) simp_all
    with ml have "e \<noteq> Aborted" "\<forall>(l, p) \<in> set log. - 1 \<le> l \<and> l < int (length bonds)"
      by simp_all
    with True t l lN ml show ?thesis by simp
  qed
qed

lemma waitUntilSafe_False_broken:
  "waitUntilSafe ticks cs k = (Returned False, cs', ticks') \<Longrightarrow> broken (cs' ! k)"
proof (induction ticks arbitrary: cs)
  case Nil
  then show ?case by simp
next
  case (Cons t ticks)
  obtain ok evs where t: "t = (ok, evs)" by (cases t)
  show ?case
  proof (cases "ok \<and> \<not> broken (cs ! k) \<and> \<not> formed (cs ! k)")
    case True
    with Cons.prems t have "waitUntilSafe ticks (spinOnce evs cs) k = (Returned False, cs', ticks')"
      by simp
    then show ?thesis by (rule Cons.IH)
  next
    case False
    with Cons.prems t show ?thesis by (auto split: if_splits)
  qed
qed

lemma init_bonds_all_formed_append:
  "init_bonds pre ticks bs s = Inr (bonds, s', ticks1) \<Longrightarrow> s' \<noteq> - 1 \<Longrightarrow>
   init_bonds (pre @ rest) ticks bs s = init_bonds rest ticks1 bonds s \<and>
   length bonds = length bs + length pre"
proof (induction pre arbitrary: ticks bs)
  case Nil
  then show ?case by simp
next
  case (Cons bid pre)
  obtain r cs1 t1 where
    fb: "formBond ticks (bs @ [SafetyClient_new bid]) (length bs) = (r, cs1, t1)"
    by (cases "formBond ticks (bs @ [SafetyClient_new bid]) (length bs)")
  then have len: "length cs1 = length bs + 1"
    using waitUntilSafe_keeps [of ticks "bs @ [SafetyClient_new bid]" "length bs" r cs1 t1]
    by (simp add: formBond_def)
  show ?case
  proof (cases r)
    case (Returned b)
    show ?thesis
    proof (cases b)
      case True
      with Returned fb Cons.prems(1)
      have "init_bonds pre t1 cs1 s = Inr (bonds, s', ticks1)" by simp
      from Cons.IH [OF this Cons.prems(2)] True Returned fb len show ?thesis by simp
    next
      case False
      with Returned fb Cons.prems show ?thesis by simp
    qed
  next
    case NoReturn
    with fb Cons.prems show ?thesis by simp
  next
    case Pending
    with fb Cons.prems show ?thesis by simp
  qed
qed

lemma loop_cycle_fatal_seed:
  assumes "1 \<le> length bonds" and "length bonds < 2 ^ 31"
  shows "loop_cycle bonds (- 1) = Inr (- 1, Some ''FATAL'')"
proof -
  have "- 1 \<le> (- 1 :: int)" and "- 1 < int (length bonds)" using assms(1) by simp_all
  from loop_cycle_in_range [OF assms(2) this] obtain l where
    l: "loop_cycle bonds (- 1) = Inr (l, publish_decision bonds l)" "- 1 \<le> l" "l \<le> - 1"
    by blast
  then have "l = - 1" by simp
  with l(1) show ?thesis by (simp add: publish_decision_def)
qed

lemma loop_cycle_published:
  assumes "map bond_id bonds = take (length bonds) ids"
    and "length bonds \<le> length ids" and "length ids < 2 ^ 31"
    and "loop_cycle bonds lsp = Inr (l, p)"
  shows "p = None \<or> p = Some ''FATAL'' \<or> (\<exists>bid \<in> set ids. p = Some bid)"
proof (cases "- 1 < l \<and> l < static_cast_int32 (length bonds) - 1")
  case True
  have cast: "static_cast_int32 (length bonds) = int (length bonds)"
    using assms(2,3) by (simp add: static_cast_int32_id)
  with True have idx: "nat l < length bonds" by linarith
  have "map bond_id bonds ! nat l = bond_id (bonds ! nat l)"
    using idx by (rule nth_map)
  with assms(1) idx have "bond_id (bonds ! nat l) = ids ! nat l" by simp
  moreover have "ids ! nat l \<in> set ids" using idx assms(2) by simp
  moreover have "p = Some (getId (bonds ! nat l))"
    using loop_cycle_Inr [OF assms(4)] True by (simp add: publish_decision_def)
  ultimately show ?thesis by (simp add: getId_def)
next
  case False
  then show ?thesis
    using loop_cycle_Inr [OF assms(4)] by (auto simp: publish_decision_def)
qed

lemma main_loop_published:
  assumes "map bond_id bonds = take (length bonds) ids"
    and "length bonds \<le> length ids" and "length ids < 2 ^ 31"
  shows "\<forall>(l, p) \<in> set (fst (main_loop ticks bonds lsp)).
           p = None \<or> p = Some ''FATAL'' \<or> (\<exists>bid \<in> set ids. p = Some bid)"
  using assms(1,2)
proof (induction ticks arbitrary: bonds lsp)
  case Nil
  then show ?case by simp
next
  case (Cons t ticks)
  obtain ok evs where t: "t = (ok, evs)" by (cases t)
  show ?case
  proof (cases "loop_cycle bonds lsp")
    case (Inl h)
    with t show ?thesis by simp
  next
    case (Inr lp)
    obtain l p where lp: "lp = (l, p)" by (cases lp)
    with Inr have cyc: "loop_cycle bonds lsp = Inr (l, p)" by simp
    have here: "p = None \<or> p = Some ''FATAL'' \<or> (\<exists>bid \<in> set ids. p = Some bid)"
      using Cons.prems assms(3) cyc by (rule loop_cycle_published)
    show ?thesis
    proof (cases ok)
      case False
      with cyc t here show ?thesis by simp
    next
      case True
      obtain log e where ml: "main_loop ticks (spinOnce evs bonds) l = (log, e)"
        by (cases "main_loop ticks (spinOnce evs bonds) l")
      have "\<forall>(l, p) \<in> set (fst (main_loop ticks (spinOnce evs bonds) l)).
           p = None \<or> p = Some ''FATAL'' \<or> (\<exists>bid \<in> set ids. p = Some bid)"
        using Cons.prems by (intro Cons.IH) simp_all
      with ml have "\<forall>(l, p) \<in> set log.
           p = None \<or> p = Some ''FATAL'' \<or> (\<exists>bid \<in> set ids. p = Some bid)" by simp
      with True cyc t ml here show ?thesis by simp
    qed
  qed
qed

lemma main_loop_first_cycle_fatal:
  assumes "loop_cycle bonds (- 1) = Inr (- 1, Some ''FATAL'')"
  shows "\<exists>log e. main_loop ((ok, evs) # rest) bonds (- 1) = ((- 1, Some ''FATAL'') # log, e)"
proof (cases ok)
  case False
  with assms show ?thesis by simp
next
  case True
  obtain log e where "main_loop rest (spinOnce evs bonds) (- 1) = (log, e)"
    by (cases "main_loop rest (spinOnce evs bonds) (- 1)")
  with True assms show ?thesis by simp
qed

section \<open>The two runs, evaluated\<close>

lemmas client_defs = SafetyClient_new_def processSafetyMessage_def onBroken_def onFormed_def
  isSafetyActive_def isFatalActive_def getId_def

lemmas cycle_defs = loop_cycle_def range_assert_def publish_decision_def static_cast_int32_def
  eval_loop.simps

lemma startup_ABC:
  "main_startup (Some [''A'', ''B'', ''C'']) (all_form_ticks @ rest) = Inr (fleet_ABC, 2, rest)"
  by (simp add: main_startup_def all_form_ticks_def fleet_ABC_def formBond_def
      static_cast_int32_def client_defs)

lemma cycle_quiet: "loop_cycle fleet_ABC 2 = Inr (2, None)"
  by (simp add: fleet_ABC_def cycle_defs client_defs)

lemma cycle_after_B:
  "loop_cycle (spinOnce [Message ''B''] fleet_ABC) 2 = Inr (1, Some ''B'')"
  by (simp add: fleet_ABC_def cycle_defs client_defs)

lemma startup_AB:
  "main_startup (Some [''A'', ''B'']) (A_forms_B_breaks @ rest) = Inr (fleet_A_brokenB, - 1, rest)"
  by (simp add: main_startup_def A_forms_B_breaks_def fleet_A_brokenB_def formBond_def
      static_cast_int32_def client_defs)

lemma cycle_AB: "loop_cycle fleet_A_brokenB (- 1) = Inr (- 1, Some ''FATAL'')"
  by (simp add: fleet_A_brokenB_def cycle_defs client_defs)

section \<open>The claims\<close>

subsection \<open>C1: a self-report of node B\<close>

text \<open>
  C1 as stated: in the fleet \<open>[A, B, C]\<close> with all bonds formed and
  \<open>lowest_safe_priority = 2\<close>, once the id \<open>B\<close> has been delivered on the topic, the next
  cycle sets \<open>lowest_safe_priority\<close> to 1 and publishes \<open>A\<close>. The cycle does set the
  value to 1, but it does not publish \<open>A\<close>: the result of the cycle is not \<open>(1, A)\<close>.
\<close>

theorem self_report_B_counterexample:
  "loop_cycle (spinOnce [Message ''B''] fleet_ABC) 2
     = Inr (1, publish_decision (spinOnce [Message ''B''] fleet_ABC) 1) \<and>
   publish_decision (spinOnce [Message ''B''] fleet_ABC) 1 \<noteq> Some ''A''"
  by (simp add: fleet_ABC_def cycle_defs client_defs)

text \<open>
  C1, amended: the whole run. Startup of \<open>[A, B, C]\<close> forms the three bonds and seeds
  2; the first cycle publishes nothing; the id \<open>B\<close> arrives; the next cycle sets
  \<open>lowest_safe_priority\<close> to 1 and publishes \<open>B\<close>, the id of the client at index
  \<open>lowest_safe_priority\<close> (line 125).
\<close>

theorem self_report_B_publishes_B:
  "main (Some [''A'', ''B'', ''C'']) (all_form_ticks @ [(True, [Message ''B'']), (False, [])])
     = Inr ([(2, None), (1, Some ''B'')], Exited)"
  by (simp add: main_def startup_ABC cycle_quiet cycle_after_B [simplified])

subsection \<open>C2: the three outcomes of a cycle\<close>

text \<open>
  C2: after any startup that reaches the loop, and whatever events the clients have
  received since (\<open>spinOnce evs bonds0\<close>), a cycle that passes the assertion ends with
  \<open>lowest_safe_priority = l\<close> between \<open>-1\<close> and \<open>N - 1\<close>, \<open>N\<close> the number of
  constructed links, and \<open>N\<close> is at least 1, so exactly one of the three cases applies:
  strictly between the two the cycle publishes the id of the client at index \<open>l\<close>, which
  is the \<open>l\<close>-th configured id; at \<open>-1\<close> it publishes \<open>FATAL\<close>; at \<open>N - 1\<close> it
  publishes nothing. So every publication, of this cycle and of every cycle of the loop, is
  a configured id or \<open>FATAL\<close>. The list of ids is shorter than \<open>2 ^ 31\<close>, the range in
  which the casts to \<open>int32_t\<close> keep the size.
\<close>

theorem decision_trichotomy:
  assumes "main_startup (Some ids) ticks = Inr (bonds0, lsp0, ticks')"
    and "length ids < 2 ^ 31"
    and "loop_cycle (spinOnce evs bonds0) lsp = Inr (l, p)"
  shows "(- 1 < l \<and> l < int (length bonds0) - 1 \<longrightarrow>
            p = Some (getId (spinOnce evs bonds0 ! nat l)) \<and> p = Some (ids ! nat l) \<and>
            ids ! nat l \<in> set ids) \<and>
         (l = - 1 \<longrightarrow> p = Some ''FATAL'') \<and>
         (l = int (length bonds0) - 1 \<longrightarrow> p = None) \<and>
         - 1 \<le> l \<and> l \<le> int (length bonds0) - 1 \<and> 1 \<le> length bonds0 \<and>
         (p = None \<or> p = Some ''FATAL'' \<or> (\<exists>bid \<in> set ids. p = Some bid)) \<and>
         (\<forall>(l', p') \<in> set (fst (main_loop ticks' bonds0 lsp0)).
             p' = None \<or> p' = Some ''FATAL'' \<or> (\<exists>bid \<in> set ids. p' = Some bid))"
proof -
  let ?bonds = "spinOnce evs bonds0"
  let ?N = "int (length bonds0)"
  from main_startup_result [OF assms(1,2)]
  have N: "1 \<le> length bonds0" "length bonds0 \<le> length ids"
    and ids: "map bond_id bonds0 = take (length bonds0) ids" by simp_all
  have cast: "static_cast_int32 (length ?bonds) = ?N"
    using N(2) assms(2) by (simp add: static_cast_int32_id)
  from loop_cycle_Inr [OF assms(3)]
  have ra: "range_assert ?bonds l" and p: "p = publish_decision ?bonds l" by blast+
  from ra cast have range: "- 1 \<le> l" "l \<le> ?N - 1"
    by (simp_all add: range_assert_def)
  have mid: "p = Some (getId (?bonds ! nat l)) \<and> p = Some (ids ! nat l) \<and> ids ! nat l \<in> set ids"
    if "- 1 < l" "l < ?N - 1"
  proof -
    from that have idx: "nat l < length bonds0" by simp
    have "map bond_id ?bonds ! nat l = bond_id (?bonds ! nat l)"
      using idx by (intro nth_map) simp
    then have "getId (?bonds ! nat l) = map bond_id ?bonds ! nat l"
      by (simp only: getId_def)
    also have "\<dots> = ids ! nat l" using idx ids by simp
    finally have "getId (?bonds ! nat l) = ids ! nat l" .
    moreover have "p = Some (getId (?bonds ! nat l))"
      using that p cast by (simp add: publish_decision_def)
    moreover have "ids ! nat l \<in> set ids" using idx N(2) by simp
    ultimately show ?thesis by simp
  qed
  have fatal: "p = Some ''FATAL''" if "l = - 1"
    using that p by (simp add: publish_decision_def)
  have quiet: "p = None" if "l = ?N - 1"
    using that p cast N(1) by (cases bonds0) (simp_all add: publish_decision_def)
  have log: "\<forall>(l', p') \<in> set (fst (main_loop ticks' bonds0 lsp0)).
             p' = None \<or> p' = Some ''FATAL'' \<or> (\<exists>bid \<in> set ids. p' = Some bid)"
    using ids N(2) assms(2) by (rule main_loop_published)
  have "p = None \<or> p = Some ''FATAL'' \<or> (\<exists>bid \<in> set ids. p = Some bid)"
  proof -
    consider "l = - 1" | "l = ?N - 1" | "- 1 < l" "l < ?N - 1"
      using range by linarith
    then show ?thesis
    proof cases
      case 1 with fatal show ?thesis by simp
    next
      case 2 with quiet show ?thesis by simp
    next
      case 3 with mid show ?thesis by blast
    qed
  qed
  with mid fatal quiet range N(1) log show ?thesis by blast
qed

text \<open>The three cases at the two concrete runs.\<close>

theorem decision_trichotomy_witness:
  "main_startup (Some [''A'', ''B'', ''C'']) all_form_ticks = Inr (fleet_ABC, 2, []) \<and>
   length [''A'', ''B'', ''C''] < 2 ^ 31 \<and>
   loop_cycle (spinOnce [Message ''B''] fleet_ABC) 2 = Inr (1, Some ''B'') \<and>
   - 1 < (1::int) \<and> (1::int) < int (length fleet_ABC) - 1 \<and>
   Some ''B'' = Some ([''A'', ''B'', ''C''] ! nat 1) \<and>
   loop_cycle (spinOnce [] fleet_ABC) 2 = Inr (2, None) \<and>
   (2::int) = int (length fleet_ABC) - 1 \<and>
   main_startup (Some [''A'', ''B'']) A_forms_B_breaks = Inr (fleet_A_brokenB, - 1, []) \<and>
   loop_cycle (spinOnce [] fleet_A_brokenB) (- 1) = Inr (- 1, Some ''FATAL'')"
proof -
  have s: "main_startup (Some [''A'', ''B'', ''C'']) all_form_ticks = Inr (fleet_ABC, 2, [])"
    using startup_ABC [of "[]"] by simp
  have n: "length [''A'', ''B'', ''C''] < 2 ^ 31" by simp
  have c: "loop_cycle (spinOnce [Message ''B''] fleet_ABC) 2 = Inr (1, Some ''B'')"
    by (rule cycle_after_B)
  have q: "loop_cycle (spinOnce [] fleet_ABC) 2 = Inr (2, None)"
    by (simp add: cycle_quiet)
  have len: "int (length fleet_ABC) = 3" by (simp add: fleet_ABC_def)
  have s': "main_startup (Some [''A'', ''B'']) A_forms_B_breaks = Inr (fleet_A_brokenB, - 1, [])"
    using startup_AB [of "[]"] by simp
  have n': "length [''A'', ''B''] < 2 ^ 31" by simp
  have f: "loop_cycle (spinOnce [] fleet_A_brokenB) (- 1) = Inr (- 1, Some ''FATAL'')"
    by (simp add: cycle_AB)
  from decision_trichotomy [OF s n c] decision_trichotomy [OF s n q]
    decision_trichotomy [OF s' n' f] s n c q len s' f
  show ?thesis by simp
qed

subsection \<open>C3: the priority never rises\<close>

text \<open>
  C3: \<open>lowest_safe_priority\<close> is non-increasing over the life of the process. A pass
  started at any index never ends above the value it began with; the values after the
  successive cycles of the loop, for any clients, any events between the cycles and any
  start value, form a non-increasing sequence that starts at the value the loop was
  entered with (events reach the clients only, \<open>spinOnce\<close> does not touch the variable,
  and each cycle starts from the value the previous one left); and the value startup
  leaves is not above the seed \<open>size - 1\<close> of line 61.
\<close>

theorem lowest_safe_priority_nonincreasing:
  "eval_loop bonds i lsp \<le> lsp \<and>
   sorted_wrt (\<ge>) (lsp # map fst (fst (main_loop ticks bonds lsp))) \<and>
   (length ids < 2 ^ 31 \<and> main_startup (Some ids) ticks0 = Inr (bonds0, lsp0, ticks1) \<longrightarrow>
      sorted_wrt (\<ge>) ((static_cast_int32 (length ids) - 1) # lsp0 #
                        map fst (fst (main_loop ticks1 bonds0 lsp0))))"
proof -
  have "sorted_wrt (\<ge>) ((static_cast_int32 (length ids) - 1) # lsp0 #
                        map fst (fst (main_loop ticks1 bonds0 lsp0)))"
    if n: "length ids < 2 ^ 31" and s: "main_startup (Some ids) ticks0 = Inr (bonds0, lsp0, ticks1)"
  proof -
    from main_startup_result [OF s n]
    have "lsp0 = int (length ids) - 1 \<or> lsp0 = - 1" and "1 \<le> length ids" by auto
    then have "lsp0 \<le> static_cast_int32 (length ids) - 1"
      using n by (auto simp: static_cast_int32_id)
    moreover have "sorted_wrt (\<ge>) (lsp0 # map fst (fst (main_loop ticks1 bonds0 lsp0)))"
      by (rule main_loop_nonincreasing)
    ultimately show ?thesis by auto
  qed
  then show ?thesis
    using eval_loop_le [of bonds i lsp] main_loop_nonincreasing [of lsp ticks bonds] by blast
qed

text \<open>The run of C1: seed 2, after startup 2, after the two cycles 2 and 1.\<close>

theorem lowest_safe_priority_nonincreasing_witness:
  "length [''A'', ''B'', ''C''] < 2 ^ 31 \<and>
   main_startup (Some [''A'', ''B'', ''C'']) (all_form_ticks @ [(True, [Message ''B'']), (False, [])])
     = Inr (fleet_ABC, 2, [(True, [Message ''B'']), (False, [])]) \<and>
   sorted_wrt (\<ge>) ((static_cast_int32 (length [''A'', ''B'', ''C'']) - 1) # 2 #
      map fst (fst (main_loop [(True, [Message ''B'']), (False, [])] fleet_ABC 2))) \<and>
   map fst (fst (main_loop [(True, [Message ''B'']), (False, [])] fleet_ABC 2)) = [2, 1]"
proof -
  have s: "main_startup (Some [''A'', ''B'', ''C''])
             (all_form_ticks @ [(True, [Message ''B'']), (False, [])])
           = Inr (fleet_ABC, 2, [(True, [Message ''B'']), (False, [])])"
    by (rule startup_ABC)
  have n: "length [''A'', ''B'', ''C''] < 2 ^ 31" by simp
  have m: "map fst (fst (main_loop [(True, [Message ''B'']), (False, [])] fleet_ABC 2)) = [2, 1]"
    by (simp add: cycle_quiet cycle_after_B [simplified])
  from lowest_safe_priority_nonincreasing
    [of fleet_ABC 0 2 "[]" "[''A'', ''B'', ''C'']"
        "all_form_ticks @ [(True, [Message ''B'']), (False, [])]" fleet_ABC 2
        "[(True, [Message ''B'']), (False, [])]"] s n
  have "sorted_wrt (\<ge>) ((static_cast_int32 (length [''A'', ''B'', ''C'']) - 1) # 2 #
      map fst (fst (main_loop [(True, [Message ''B'']), (False, [])] fleet_ABC 2)))"
    by blast
  with s n m show ?thesis by blast
qed

subsection \<open>C4: the range assertion never fires\<close>

text \<open>
  C4: startup leaves at least one link and one of the two seeds, \<open>N - 1\<close> with all
  \<open>N\<close> bonds formed or \<open>-1\<close>; from there, under any events and for any number of
  cycles, the loop is never aborted by the assertion and the value after every pass lies
  in \<open>-1 \<le> l < N\<close>. The pass itself, started at an index \<open>i \<ge> 0\<close> with a value of
  at least \<open>-1\<close>, never ends below \<open>-1\<close>.
\<close>

theorem range_assertion_never_fires:
  assumes "main_startup (Some ids) ticks = Inr (bonds0, lsp0, ticks')"
    and "length ids < 2 ^ 31"
  shows "1 \<le> length bonds0 \<and>
         (lsp0 = int (length ids) - 1 \<and> length bonds0 = length ids \<or> lsp0 = - 1) \<and>
         snd (main_loop ticks2 bonds0 lsp0) \<noteq> Aborted \<and>
         (\<forall>(l, p) \<in> set (fst (main_loop ticks2 bonds0 lsp0)).
             - 1 \<le> l \<and> l < int (length bonds0)) \<and>
         (0 \<le> i \<and> - 1 \<le> lsp \<longrightarrow> - 1 \<le> eval_loop bonds i lsp)"
proof -
  from main_startup_result [OF assms]
  have N: "1 \<le> length bonds0" "length bonds0 \<le> length ids"
    and seed: "lsp0 = int (length ids) - 1 \<and> length bonds0 = length ids \<or> lsp0 = - 1"
    by simp_all
  from N(2) assms(2) have small: "length bonds0 < 2 ^ 31" by simp
  from seed N(1) have lo: "- 1 \<le> lsp0" and hi: "lsp0 < int (length bonds0)" by auto
  from main_loop_in_range [OF small lo hi, of ticks2] N(1) seed eval_loop_ge [of i lsp bonds]
  show ?thesis by blast
qed

text \<open>The run in which the second of two bonds breaks, one cycle.\<close>

theorem range_assertion_never_fires_witness:
  "main_startup (Some [''A'', ''B'']) A_forms_B_breaks = Inr (fleet_A_brokenB, - 1, []) \<and>
   length [''A'', ''B''] < 2 ^ 31 \<and>
   main_loop [(False, [])] fleet_A_brokenB (- 1) = ([(- 1, Some ''FATAL'')], Exited) \<and>
   snd (main_loop [(False, [])] fleet_A_brokenB (- 1)) \<noteq> Aborted \<and>
   - 1 \<le> eval_loop fleet_A_brokenB 0 (- 1)"
proof -
  have s: "main_startup (Some [''A'', ''B'']) A_forms_B_breaks = Inr (fleet_A_brokenB, - 1, [])"
    using startup_AB [of "[]"] by simp
  have n: "length [''A'', ''B''] < 2 ^ 31" by simp
  have m: "main_loop [(False, [])] fleet_A_brokenB (- 1) = ([(- 1, Some ''FATAL'')], Exited)"
    by (simp add: cycle_AB)
  from range_assertion_never_fires [OF s n, of "[(False, [])]" 0 "- 1" fleet_A_brokenB] s n m
  show ?thesis by simp
qed

subsection \<open>C5: is Broken absorbing?\<close>

text \<open>
  C5 as stated: once \<open>onBroken\<close> has fired, nothing, a later \<open>onFormed\<close> included,
  makes the client non-broken again. In the code \<open>onFormed\<close> assigns \<open>broken_ = false\<close>
  and \<open>formed_ = true\<close> whatever the state: after \<open>onBroken\<close> then \<open>onFormed\<close> the
  client is formed and not broken.
\<close>

theorem broken_absorbing_counterexample:
  "\<not> broken (run_callbacks [OnFormed] (onBroken (SafetyClient_new ''A''))) \<and>
   formed (run_callbacks [OnFormed] (onBroken (SafetyClient_new ''A'')))"
  by (simp add: onFormed_def onBroken_def SafetyClient_new_def)

text \<open>
  C5, amended: once \<open>onBroken\<close> has fired, the client stays broken and not formed through
  every later sequence of \<open>processSafetyMessage\<close> and \<open>onBroken\<close> calls; an
  \<open>onFormed\<close> call, after any history, leaves it formed and not broken.
\<close>

theorem broken_kept_without_onFormed:
  "(OnFormed \<notin> set cbs \<longrightarrow>
      broken (run_callbacks cbs (onBroken c)) \<and> \<not> formed (run_callbacks cbs (onBroken c))) \<and>
   \<not> broken (onFormed (run_callbacks cbs (onBroken c))) \<and>
   formed (onFormed (run_callbacks cbs (onBroken c)))"
proof -
  have "broken (onBroken c) \<and> \<not> formed (onBroken c)"
    by (simp add: onBroken_def)
  then have "OnFormed \<notin> set cbs \<Longrightarrow>
      broken (run_callbacks cbs (onBroken c)) \<and> \<not> formed (run_callbacks cbs (onBroken c))"
    by (rule run_callbacks_keeps_broken [rotated])
  then show ?thesis by (simp add: onFormed_def)
qed

theorem broken_kept_without_onFormed_witness:
  "OnFormed \<notin> set [ProcessSafetyMessage ''A'', OnBroken, ProcessSafetyMessage ''FATAL''] \<and>
   broken (run_callbacks [ProcessSafetyMessage ''A'', OnBroken, ProcessSafetyMessage ''FATAL'']
             (onBroken (SafetyClient_new ''A'')))"
  using broken_kept_without_onFormed
    [of "[ProcessSafetyMessage ''A'', OnBroken, ProcessSafetyMessage ''FATAL'']"
        "SafetyClient_new ''A''"]
  by simp

subsection \<open>C6: the outcomes of formBond\<close>

text \<open>
  C6 says that \<open>formBond\<close> has two outcomes only, \<open>true\<close> and \<open>false\<close>, and that no
  path leaves the wait loop without returning one of them. When \<open>ros::ok()\<close> is false at
  the loop test (a shutdown requested while the bond is forming), the loop of
  \<open>waitUntilSafe\<close> ends and the function reaches its closing brace without a
  \<open>return\<close>: for a new client and that answer, \<open>formBond\<close> hands back no value.
\<close>

theorem formBond_shutdown_no_return:
  "formBond [(False, [])] [SafetyClient_new ''A''] 0 = (NoReturn, [SafetyClient_new ''A''], [])"
  by (simp add: formBond_def)

subsection \<open>C7: a bond that fails to form at startup\<close>

text \<open>
  C7: the configured list is \<open>pre @ bid # post\<close>, so \<open>bid\<close> is the \<open>k\<close>-th node with
  \<open>k = length pre + 1\<close>. The second hypothesis says that the loop over \<open>pre\<close> ends with
  the seed unchanged, that is, every bond before the \<open>k\<close>-th formed; the third that
  \<open>formBond\<close> of the \<open>k\<close>-th returns false. Then startup ends there with exactly
  \<open>k\<close> links, the ids of the first \<open>k\<close> nodes, the last link being the broken one, and
  with \<open>lowest_safe_priority = -1\<close>; nothing is aborted, \<open>main\<close> goes on into the loop,
  and the first cycle of the loop publishes \<open>FATAL\<close>.
\<close>

theorem failed_formation_is_fatal:
  assumes "length (pre @ bid # post) < 2 ^ 31"
    and "init_bonds pre ticks [] (static_cast_int32 (length (pre @ bid # post)) - 1)
           = Inr (bonds, static_cast_int32 (length (pre @ bid # post)) - 1, ticks1)"
    and "formBond ticks1 (bonds @ [SafetyClient_new bid]) (length bonds)
           = (Returned False, bonds', ticks2)"
  shows "main_startup (Some (pre @ bid # post)) ticks = Inr (bonds', - 1, ticks2) \<and>
         length bonds' = length pre + 1 \<and>
         map getId bonds' = pre @ [bid] \<and>
         broken (bonds' ! length pre) \<and>
         main (Some (pre @ bid # post)) ticks = Inr (main_loop ticks2 bonds' (- 1)) \<and>
         loop_cycle bonds' (- 1) = Inr (- 1, Some ''FATAL'') \<and>
         (\<exists>log e. main_loop ((ok, evs) # rest) bonds' (- 1) = ((- 1, Some ''FATAL'') # log, e))"
proof -
  let ?ids = "pre @ bid # post"
  let ?seed = "static_cast_int32 (length ?ids) - 1"
  have "static_cast_int32 (length ?ids) = int (length ?ids)"
    using assms(1) by (rule static_cast_int32_id)
  then have seed: "?seed \<noteq> - 1" by simp
  from init_bonds_all_formed_append [OF assms(2) seed, of "bid # post"]
  have app: "init_bonds ?ids ticks [] ?seed = init_bonds (bid # post) ticks1 bonds ?seed"
    and len: "length bonds = length pre" by simp_all
  from app assms(3) have ib: "init_bonds ?ids ticks [] ?seed = Inr (bonds', - 1, ticks2)"
    by simp
  then have start: "main_startup (Some ?ids) ticks = Inr (bonds', - 1, ticks2)"
    by (simp add: main_startup_def)
  from main_startup_result [OF start assms(1)]
  have ids: "map bond_id bonds' = take (length bonds') ?ids" by simp
  from assms(3) have w: "waitUntilSafe ticks1 (bonds @ [SafetyClient_new bid]) (length bonds)
      = (Returned False, bonds', ticks2)" by (simp add: formBond_def)
  from waitUntilSafe_keeps [OF w] len have len': "length bonds' = length pre + 1" by simp
  from waitUntilSafe_False_broken [OF w] len have br: "broken (bonds' ! length pre)" by simp
  from ids len' have names: "map getId bonds' = pre @ [bid]"
    by (simp add: getId_def [abs_def])
  have small: "length bonds' < 2 ^ 31" using len' assms(1) by simp
  have cyc: "loop_cycle bonds' (- 1) = Inr (- 1, Some ''FATAL'')"
    using len' small by (intro loop_cycle_fatal_seed) simp_all
  from start have m: "main (Some ?ids) ticks = Inr (main_loop ticks2 bonds' (- 1))"
    by (simp add: main_def)
  from start len' names br m cyc main_loop_first_cycle_fatal [OF cyc, of ok evs rest]
  show ?thesis by blast
qed

text \<open>Two configured nodes, the second fails to form: the first cycle publishes \<open>FATAL\<close>.\<close>

theorem failed_formation_is_fatal_witness:
  "length ([''A''] @ ''B'' # []) < 2 ^ 31 \<and>
   init_bonds [''A''] (A_forms_B_breaks @ [(False, [])]) []
       (static_cast_int32 (length ([''A''] @ ''B'' # [])) - 1)
     = Inr ([onFormed (SafetyClient_new ''A'')],
            static_cast_int32 (length ([''A''] @ ''B'' # [])) - 1,
            [(True, [BondBroken 1]), (True, []), (False, [])]) \<and>
   formBond [(True, [BondBroken 1]), (True, []), (False, [])]
       ([onFormed (SafetyClient_new ''A'')] @ [SafetyClient_new ''B''])
       (length [onFormed (SafetyClient_new ''A'')])
     = (Returned False, fleet_A_brokenB, [(False, [])]) \<and>
   main (Some [''A'', ''B'']) (A_forms_B_breaks @ [(False, [])])
     = Inr ([(- 1, Some ''FATAL'')], Exited)"
proof -
  have n: "length ([''A''] @ ''B'' # []) < 2 ^ 31" by simp
  have i: "init_bonds [''A''] (A_forms_B_breaks @ [(False, [])]) []
       (static_cast_int32 (length ([''A''] @ ''B'' # [])) - 1)
     = Inr ([onFormed (SafetyClient_new ''A'')],
            static_cast_int32 (length ([''A''] @ ''B'' # [])) - 1,
            [(True, [BondBroken 1]), (True, []), (False, [])])"
    by (simp add: A_forms_B_breaks_def formBond_def client_defs)
  have f: "formBond [(True, [BondBroken 1]), (True, []), (False, [])]
       ([onFormed (SafetyClient_new ''A'')] @ [SafetyClient_new ''B''])
       (length [onFormed (SafetyClient_new ''A'')])
     = (Returned False, fleet_A_brokenB, [(False, [])])"
    by (simp add: formBond_def fleet_A_brokenB_def client_defs)
  have m: "main_loop [(False, [])] fleet_A_brokenB (- 1) = ([(- 1, Some ''FATAL'')], Exited)"
    by (simp add: cycle_AB)
  from failed_formation_is_fatal [OF n i f] m
  have "main (Some [''A'', ''B'']) (A_forms_B_breaks @ [(False, [])])
     = Inr ([(- 1, Some ''FATAL'')], Exited)" by simp
  with n i f show ?thesis by blast
qed

subsection \<open>C8: a broken bond forces both flags for good\<close>

text \<open>
  C8: for every client, once \<open>onBroken\<close> has fired, \<open>isSafetyActive\<close> and
  \<open>isFatalActive\<close> are both true after every later sequence of callbacks, whatever the
  messages are.
\<close>

theorem broken_forces_flags_forever:
  "isSafetyActive (run_callbacks cbs (onBroken c)) \<and>
   isFatalActive (run_callbacks cbs (onBroken c))"
proof -
  have "safety_active (onBroken c)" and "fatal_active (onBroken c)"
    by (simp_all add: onBroken_def)
  then show ?thesis
    by (simp add: isSafetyActive_def isFatalActive_def run_callbacks_keeps_flags)
qed

subsection \<open>C9: fatal implies safety\<close>

text \<open>
  C9: after construction and any sequence of callbacks, \<open>fatal_active\<close> implies
  \<open>safety_active\<close>; a callback that sets \<open>fatal_active\<close> leaves \<open>safety_active\<close>
  set; and no callback clears either flag.
\<close>

theorem fatal_implies_safety:
  "(fatal_active (run_callbacks cbs (SafetyClient_new bid)) \<longrightarrow>
      safety_active (run_callbacks cbs (SafetyClient_new bid))) \<and>
   (fatal_active (invoke cb c) \<and> \<not> fatal_active c \<longrightarrow> safety_active (invoke cb c)) \<and>
   (safety_active c \<longrightarrow> safety_active (invoke cb c)) \<and>
   (fatal_active c \<longrightarrow> fatal_active (invoke cb c))"
proof -
  have "fatal_active (SafetyClient_new bid) \<longrightarrow> safety_active (SafetyClient_new bid)"
    by (simp add: SafetyClient_new_def)
  then have inv: "fatal_active (run_callbacks cbs (SafetyClient_new bid)) \<longrightarrow>
      safety_active (run_callbacks cbs (SafetyClient_new bid))"
    by (rule run_callbacks_fatal_implies_safety)
  have sets: "fatal_active (invoke cb c) \<and> \<not> fatal_active c \<longrightarrow> safety_active (invoke cb c)"
    by (cases cb) (auto simp: processSafetyMessage_def onBroken_def onFormed_def)
  from inv sets show ?thesis
    by (simp add: invoke_keeps_flags)
qed

theorem fatal_implies_safety_witness:
  "fatal_active (run_callbacks [ProcessSafetyMessage ''FATAL''] (SafetyClient_new ''A'')) \<and>
   safety_active (run_callbacks [ProcessSafetyMessage ''FATAL''] (SafetyClient_new ''A'')) \<and>
   \<not> fatal_active (SafetyClient_new ''A'') \<and>
   fatal_active (invoke OnBroken (SafetyClient_new ''A'')) \<and>
   safety_active (invoke OnBroken (SafetyClient_new ''A'')) \<and>
   safety_active (onBroken (SafetyClient_new ''A'')) \<and>
   fatal_active (onBroken (SafetyClient_new ''A'')) \<and>
   safety_active (invoke OnFormed (onBroken (SafetyClient_new ''A''))) \<and>
   fatal_active (invoke OnFormed (onBroken (SafetyClient_new ''A'')))"
  using fatal_implies_safety
    [of "[ProcessSafetyMessage ''FATAL'']" "''A''" OnBroken "SafetyClient_new ''A''"]
    fatal_implies_safety
    [of "[]" "''A''" OnFormed "onBroken (SafetyClient_new ''A'')"]
  by (simp add: processSafetyMessage_def onBroken_def SafetyClient_new_def)

subsection \<open>C10: the own id is tested before the sentinel\<close>

text \<open>
  C10: a message equal to the client's own id sets \<open>safety_active\<close> and changes nothing
  else, \<open>fatal_active\<close> in particular; so a client whose id is the sentinel itself gets
  \<open>safety_active\<close> from the sentinel and keeps \<open>fatal_active\<close> as it was. A message
  that is the sentinel and not the own id sets both flags, and a message that is neither
  leaves the client as it is.
\<close>

theorem own_id_tested_before_sentinel:
  "(message = bond_id c \<longrightarrow>
      processSafetyMessage message c = c\<lparr>safety_active := True\<rparr> \<and>
      fatal_active (processSafetyMessage message c) = fatal_active c) \<and>
   (bond_id c = fatal_message c \<longrightarrow>
      safety_active (processSafetyMessage (fatal_message c) c) \<and>
      fatal_active (processSafetyMessage (fatal_message c) c) = fatal_active c) \<and>
   (message \<noteq> bond_id c \<and> message = fatal_message c \<longrightarrow>
      processSafetyMessage message c = c\<lparr>safety_active := True, fatal_active := True\<rparr>) \<and>
   (message \<noteq> bond_id c \<and> message \<noteq> fatal_message c \<longrightarrow>
      processSafetyMessage message c = c)"
  by (simp add: processSafetyMessage_def)

text \<open>A client named \<open>FATAL\<close>, and a client named \<open>A\<close> receiving \<open>B\<close> and \<open>FATAL\<close>.\<close>

theorem own_id_tested_before_sentinel_witness:
  "bond_id (SafetyClient_new ''FATAL'') = fatal_message (SafetyClient_new ''FATAL'') \<and>
   safety_active (processSafetyMessage ''FATAL'' (SafetyClient_new ''FATAL'')) \<and>
   \<not> fatal_active (processSafetyMessage ''FATAL'' (SafetyClient_new ''FATAL'')) \<and>
   ''B'' \<noteq> bond_id (SafetyClient_new ''A'') \<and> ''B'' \<noteq> fatal_message (SafetyClient_new ''A'') \<and>
   processSafetyMessage ''B'' (SafetyClient_new ''A'') = SafetyClient_new ''A'' \<and>
   processSafetyMessage ''FATAL'' (SafetyClient_new ''A'') =
     (SafetyClient_new ''A'')\<lparr>safety_active := True, fatal_active := True\<rparr>"
  using own_id_tested_before_sentinel [of "''FATAL''" "SafetyClient_new ''FATAL''"]
    own_id_tested_before_sentinel [of "''B''" "SafetyClient_new ''A''"]
    own_id_tested_before_sentinel [of "''FATAL''" "SafetyClient_new ''A''"]
  by (simp add: SafetyClient_new_def)

end
